theory Spec2Isabelle
  imports Complex_Main
begin

section \<open>Periodic-investment analyzer: data model\<close>

text \<open>
  The development embeds \<^verbatim>\<open>StockInvestmentAnalyzer\<close> of
  \<^verbatim>\<open>MIP_analyzer/stock_analyzer.py\<close>.  Conventions of the embedding:
  \<^item> a pandas \<^verbatim>\<open>Timestamp\<close> is a record of its calendar fields and the time of
    day in nanoseconds; its position on the time line (\<open>to_ns\<close>) is what pandas
    compares and subtracts.  The representation bounds of \<^verbatim>\<open>Timestamp\<close> are not
    modelled: the calendar is the unbounded proleptic Gregorian one;
  \<^item> a finite float is the rational number it denotes and arithmetic on finite
    floats is exact (rounding is not modelled); the non-finite results of numpy
    scalar arithmetic (\<open>PInf\<close>, \<open>NInf\<close>, \<open>NaN\<close>) are values of their own;
  \<^item> a raised exception is the left summand of a result.
\<close>

datatype py_error = ValueError | IndexError

subsection \<open>Timestamps\<close>

record timestamp =
  year :: int
  month :: nat
  day :: nat
  tod :: nat

definition is_leap :: "int \<Rightarrow> bool" where
  "is_leap y = (y mod 4 = 0 \<and> (y mod 100 \<noteq> 0 \<or> y mod 400 = 0))"

definition days_in_month :: "int \<Rightarrow> nat \<Rightarrow> nat" where
  "days_in_month y m =
     (if m = 2 then (if is_leap y then 29 else 28)
      else if m = 4 \<or> m = 6 \<or> m = 9 \<or> m = 11 then 30
      else 31)"

definition days_before_month :: "int \<Rightarrow> nat \<Rightarrow> nat" where
  "days_before_month y m = sum_list (map (days_in_month y) [1..<m])"

definition days_before_year :: "int \<Rightarrow> int" where
  "days_before_year y = 365 * (y - 1) + (y - 1) div 4 - (y - 1) div 100 + (y - 1) div 400"

definition day_number :: "timestamp \<Rightarrow> int" where
  "day_number c = days_before_year (year c) + int (days_before_month (year c) (month c)) + int (day c)"

definition minute_ns :: nat where
  "minute_ns = 60000000000"

definition hour_ns :: nat where
  "hour_ns = 60 * minute_ns"

definition day_ns :: nat where
  "day_ns = 24 * hour_ns"

text \<open>The position of a timestamp on the time line, in nanoseconds.\<close>

definition to_ns :: "timestamp \<Rightarrow> int" where
  "to_ns c = day_number c * int day_ns + int (tod c)"

definition valid_date :: "int \<Rightarrow> nat \<Rightarrow> nat \<Rightarrow> bool" where
  "valid_date y m d = (1 \<le> m \<and> m \<le> 12 \<and> 1 \<le> d \<and> d \<le> days_in_month y m)"

definition valid_ts :: "timestamp \<Rightarrow> bool" where
  "valid_ts c = (valid_date (year c) (month c) (day c) \<and> tod c < day_ns)"

text \<open>
  \<^verbatim>\<open>current.replace(year=y, month=m, day=d)\<close>: the fields are replaced and the new
  date is validated; an invalid date raises \<^verbatim>\<open>ValueError\<close>.  A keyword the source
  leaves out is passed as the current field.
\<close>

definition replace :: "timestamp \<Rightarrow> int \<Rightarrow> nat \<Rightarrow> nat \<Rightarrow> py_error + timestamp" where
  "replace c y m d =
     (if valid_date y m d then Inr (c\<lparr>year := y, month := m, day := d\<rparr>) else Inl ValueError)"

text \<open>\<^verbatim>\<open>current + timedelta(...)\<close> for a non-negative duration in nanoseconds.\<close>

definition next_day :: "timestamp \<Rightarrow> timestamp" where
  "next_day c =
     (if day c < days_in_month (year c) (month c) then c\<lparr>day := day c + 1\<rparr>
      else if month c < 12 then c\<lparr>month := month c + 1, day := 1\<rparr>
      else c\<lparr>year := year c + 1, month := 1, day := 1\<rparr>)"

definition add_timedelta :: "timestamp \<Rightarrow> nat \<Rightarrow> timestamp" where
  "add_timedelta c n =
     (let t = tod c + n in ((next_day ^^ (t div day_ns)) c)\<lparr>tod := t mod day_ns\<rparr>)"

text \<open>\<^verbatim>\<open>try: a  except ValueError: b\<close>\<close>

definition try_except_ValueError :: "py_error + 'a \<Rightarrow> py_error + 'a \<Rightarrow> py_error + 'a" where
  "try_except_ValueError a b =
     (case a of Inr v \<Rightarrow> Inr v | Inl ValueError \<Rightarrow> b | Inl e \<Rightarrow> Inl e)"

subsection \<open>Moving the cursor to the next investment date\<close>

text \<open>
  The \<^verbatim>\<open>if frequency == ... elif ...\<close> chain at the end of the loop body of
  \<^verbatim>\<open>simulate_investment\<close>.  A frequency that matches no branch leaves the cursor
  where it is.
\<close>

definition advance_cursor :: "string \<Rightarrow> timestamp \<Rightarrow> py_error + timestamp" where
  "advance_cursor frequency current =
     (if frequency = ''halfhourly'' then Inr (add_timedelta current (30 * minute_ns))
      else if frequency = ''hourly'' then Inr (add_timedelta current hour_ns)
      else if frequency = ''3hourly'' then Inr (add_timedelta current (3 * hour_ns))
      else if frequency = ''6hourly'' then Inr (add_timedelta current (6 * hour_ns))
      else if frequency = ''12hourly'' then Inr (add_timedelta current (12 * hour_ns))
      else if frequency = ''daily'' then Inr (add_timedelta current day_ns)
      else if frequency = ''3daily'' then Inr (add_timedelta current (3 * day_ns))
      else if frequency = ''weekly'' then Inr (add_timedelta current (7 * day_ns))
      else if frequency = ''monthly'' then
        try_except_ValueError
          (if month current < 12
           then replace current (year current) (month current + 1) (day current)
           else replace current (year current + 1) 1 (day current))
          (if month current < 12
           then replace current (year current) (month current + 1) 1
           else replace current (year current + 1) 1 1)
      else if frequency = ''quarterly'' then
        try_except_ValueError
          (let new_month = month current + 3 in
           if new_month > 12
           then replace current (year current + 1) (new_month - 12) (day current)
           else replace current (year current) new_month (day current))
          (let new_month = month current + 3 in
           if new_month > 12
           then replace current (year current + 1) (new_month - 12) 1
           else replace current (year current) new_month 1)
      else if frequency = ''semiannually'' then
        try_except_ValueError
          (let new_month = month current + 6 in
           if new_month > 12
           then replace current (year current + 1) (new_month - 12) (day current)
           else replace current (year current) new_month (day current))
          (let new_month = month current + 6 in
           if new_month > 12
           then replace current (year current + 1) (new_month - 12) 1
           else replace current (year current) new_month 1)
      else if frequency = ''yearly'' then
        try_except_ValueError
          (replace current (year current + 1) (month current) (day current))
          (replace current (year current + 1) (month current) 1)
      else Inr current)"

text \<open>The twelve frequency codes the chain recognizes.\<close>

definition recognized_frequencies :: "string list" where
  "recognized_frequencies =
     [''halfhourly'', ''hourly'', ''3hourly'', ''6hourly'', ''12hourly'', ''daily'', ''3daily'',
      ''weekly'', ''monthly'', ''quarterly'', ''semiannually'', ''yearly'']"

text \<open>
  The calendar steps as the specification words them: add \<open>k\<close> months, carrying
  the year when the month passes December, and fall back to day 1 of the target
  month when the day does not exist there; a yearly step keeps month and day with
  the same fallback.
\<close>

definition spec_add_months :: "nat \<Rightarrow> timestamp \<Rightarrow> timestamp" where
  "spec_add_months k c =
     (let m = month c + k;
          y' = (if m > 12 then year c + 1 else year c);
          m' = (if m > 12 then m - 12 else m);
          d' = (if day c \<le> days_in_month y' m' then day c else 1)
      in c\<lparr>year := y', month := m', day := d'\<rparr>)"

definition spec_add_year :: "timestamp \<Rightarrow> timestamp" where
  "spec_add_year c =
     (let d' = (if day c \<le> days_in_month (year c + 1) (month c) then day c else 1)
      in c\<lparr>year := year c + 1, day := d'\<rparr>)"

subsection \<open>Numbers\<close>

text \<open>
  The values of numpy scalar arithmetic.  Division by zero does not raise: it
  yields an infinity or \<open>NaN\<close>.  Zero carries no sign.
\<close>

datatype npfloat = Fin rat | PInf | NInf | NaN

fun fl_neg :: "npfloat \<Rightarrow> npfloat" where
  "fl_neg (Fin a) = Fin (- a)"
| "fl_neg PInf = NInf"
| "fl_neg NInf = PInf"
| "fl_neg NaN = NaN"

fun fl_add :: "npfloat \<Rightarrow> npfloat \<Rightarrow> npfloat" where
  "fl_add NaN _ = NaN"
| "fl_add _ NaN = NaN"
| "fl_add (Fin a) (Fin b) = Fin (a + b)"
| "fl_add PInf NInf = NaN"
| "fl_add NInf PInf = NaN"
| "fl_add PInf _ = PInf"
| "fl_add _ PInf = PInf"
| "fl_add NInf _ = NInf"
| "fl_add _ NInf = NInf"

definition fl_sub :: "npfloat \<Rightarrow> npfloat \<Rightarrow> npfloat" where
  "fl_sub a b = fl_add a (fl_neg b)"

fun fl_mul :: "npfloat \<Rightarrow> npfloat \<Rightarrow> npfloat" where
  "fl_mul NaN _ = NaN"
| "fl_mul _ NaN = NaN"
| "fl_mul (Fin a) (Fin b) = Fin (a * b)"
| "fl_mul PInf (Fin b) = (if b = 0 then NaN else if 0 < b then PInf else NInf)"
| "fl_mul NInf (Fin b) = (if b = 0 then NaN else if 0 < b then NInf else PInf)"
| "fl_mul (Fin a) PInf = (if a = 0 then NaN else if 0 < a then PInf else NInf)"
| "fl_mul (Fin a) NInf = (if a = 0 then NaN else if 0 < a then NInf else PInf)"
| "fl_mul PInf PInf = PInf"
| "fl_mul NInf NInf = PInf"
| "fl_mul PInf NInf = NInf"
| "fl_mul NInf PInf = NInf"

fun fl_div :: "npfloat \<Rightarrow> npfloat \<Rightarrow> npfloat" where
  "fl_div NaN _ = NaN"
| "fl_div _ NaN = NaN"
| "fl_div (Fin a) (Fin b) =
     (if b = 0 then (if a = 0 then NaN else if 0 < a then PInf else NInf) else Fin (a / b))"
| "fl_div (Fin a) PInf = Fin 0"
| "fl_div (Fin a) NInf = Fin 0"
| "fl_div PInf (Fin b) = (if 0 \<le> b then PInf else NInf)"
| "fl_div NInf (Fin b) = (if 0 \<le> b then NInf else PInf)"
| "fl_div PInf PInf = NaN"
| "fl_div PInf NInf = NaN"
| "fl_div NInf PInf = NaN"
| "fl_div NInf NInf = NaN"

text \<open>\<open>a < b\<close>; every comparison with \<open>NaN\<close> is false.\<close>

fun fl_less :: "npfloat \<Rightarrow> npfloat \<Rightarrow> bool" where
  "fl_less NaN _ = False"
| "fl_less _ NaN = False"
| "fl_less (Fin a) (Fin b) = (a < b)"
| "fl_less PInf _ = False"
| "fl_less _ NInf = False"
| "fl_less NInf _ = True"
| "fl_less _ PInf = True"

text \<open>\<^verbatim>\<open>sum(...)\<close>: starts at 0 and adds from the left.\<close>

definition py_sum :: "npfloat list \<Rightarrow> npfloat" where
  "py_sum xs = foldl fl_add (Fin 0) xs"

text \<open>\<^verbatim>\<open>int(x)\<close> truncates towards zero.\<close>

definition py_int :: "rat \<Rightarrow> int" where
  "py_int x = (if 0 \<le> x then \<lfloor>x\<rfloor> else \<lceil>x\<rceil>)"

subsection \<open>Sequences and rows\<close>

text \<open>
  Positional indexing (\<^verbatim>\<open>xs[i]\<close>, \<^verbatim>\<open>df.iloc[i]\<close>): a negative index counts from
  the end, an index out of range raises \<^verbatim>\<open>IndexError\<close>.
\<close>

definition iloc :: "'a list \<Rightarrow> int \<Rightarrow> py_error + 'a" where
  "iloc xs i =
     (if 0 \<le> i \<and> i < int (length xs) then Inr (xs ! nat i)
      else if i < 0 \<and> - int (length xs) \<le> i then Inr (xs ! nat (int (length xs) + i))
      else Inl IndexError)"

text \<open>One row of the data frame that \<^verbatim>\<open>load_data\<close> returns.\<close>

record price_point =
  Date :: timestamp
  Open :: rat
  High :: rat
  Low :: rat
  Close :: rat
  Volume :: rat

subsection \<open>\<^verbatim>\<open>detect_data_granularity\<close>\<close>







subsection \<open>\<^verbatim>\<open>get_strategies_for_granularity\<close>\<close>

text \<open>
  A strategy is the tuple (display name, interval in hours, frequency code).  The
  display names are Chinese; a name is the list of its Unicode code points.
\<close>

type_synonym strategy = "nat list \<times> rat \<times> string"

definition get_strategies_for_granularity :: "string \<Rightarrow> strategy list" where
  "get_strategies_for_granularity granularity =
     (if granularity = ''intraday_minute'' then
        [([0x6BCF, 0x534A, 0x5C0F, 0x6642], 1 / 2, ''halfhourly''),
         ([0x6BCF, 0x5C0F, 0x6642], 1, ''hourly''),
         ([0x6BCF, 0x33, 0x5C0F, 0x6642], 3, ''3hourly''),
         ([0x6BCF, 0x36, 0x5C0F, 0x6642], 6, ''6hourly''),
         ([0x6BCF, 0x31, 0x32, 0x5C0F, 0x6642], 12, ''12hourly''),
         ([0x6BCF, 0x65E5], 24, ''daily''),
         ([0x6BCF, 0x33, 0x65E5], 72, ''3daily''),
         ([0x6BCF, 0x9031], 168, ''weekly'')]
      else if granularity = ''intraday_hourly'' then
        [([0x6BCF, 0x5C0F, 0x6642], 1, ''hourly''),
         ([0x6BCF, 0x33, 0x5C0F, 0x6642], 3, ''3hourly''),
         ([0x6BCF, 0x36, 0x5C0F, 0x6642], 6, ''6hourly''),
         ([0x6BCF, 0x31, 0x32, 0x5C0F, 0x6642], 12, ''12hourly''),
         ([0x6BCF, 0x65E5], 24, ''daily''),
         ([0x6BCF, 0x33, 0x65E5], 72, ''3daily''),
         ([0x6BCF, 0x9031], 168, ''weekly'')]
      else if granularity = ''intraday_half_day'' then
        [([0x6BCF, 0x31, 0x32, 0x5C0F, 0x6642], 12, ''12hourly''),
         ([0x6BCF, 0x65E5], 24, ''daily''),
         ([0x6BCF, 0x33, 0x65E5], 72, ''3daily''),
         ([0x6BCF, 0x9031], 168, ''weekly''),
         ([0x6BCF, 0x6708], 720, ''monthly'')]
      else if granularity = ''daily'' then
        [([0x6BCF, 0x65E5], 24, ''daily''),
         ([0x6BCF, 0x33, 0x65E5], 72, ''3daily''),
         ([0x6BCF, 0x9031], 168, ''weekly''),
         ([0x6BCF, 0x6708], 720, ''monthly''),
         ([0x6BCF, 0x5B63], 2160, ''quarterly''),
         ([0x6BCF, 0x534A, 0x5E74], 4320, ''semiannually'')]
      else
        [([0x6BCF, 0x9031], 168, ''weekly''),
         ([0x6BCF, 0x6708], 720, ''monthly''),
         ([0x6BCF, 0x5B63], 2160, ''quarterly''),
         ([0x6BCF, 0x534A, 0x5E74], 4320, ''semiannually''),
         ([0x6BCF, 0x5E74], 8760, ''yearly'')])"

definition frequency_of :: "strategy \<Rightarrow> string" where
  "frequency_of s = snd (snd s)"

definition interval_hours_of :: "strategy \<Rightarrow> rat" where
  "interval_hours_of s = fst (snd s)"

subsection \<open>\<^verbatim>\<open>simulate_investment\<close>\<close>

text \<open>
  The dict the loop appends for each contribution, and the dict the method
  returns (its keys \<^verbatim>\<open>count\<close>, \<^verbatim>\<open>invested\<close>, \<^verbatim>\<open>commission\<close>, \<^verbatim>\<open>shares\<close>,
  \<^verbatim>\<open>value\<close>, \<^verbatim>\<open>return\<close>, \<^verbatim>\<open>final_price\<close>).  The argument \<open>commission_rate\<close>
  is \<^verbatim>\<open>self.commission_rate\<close>; \<open>start\<close> and \<open>end_dt\<close> are the timestamps that
  \<^verbatim>\<open>pd.to_datetime\<close> makes of the arguments.  Prices, amount and rate are finite;
  the shares, the value and the return are numpy scalars and may be non-finite.
\<close>

record investment =
  inv_shares :: npfloat
  inv_commission :: rat

record sim_result =
  r_count :: nat
  r_invested :: rat
  r_commission :: rat
  r_shares :: npfloat
  r_value :: npfloat
  r_return :: npfloat
  r_final_price :: rat

text \<open>
  The \<^verbatim>\<open>while current <= end_dt\<close> loop.  \<open>None\<close> is a loop that never ends; the
  list \<open>investments\<close> is the state the loop appends to.
\<close>

partial_function (option) invest_loop ::
  "rat \<Rightarrow> price_point list \<Rightarrow> timestamp \<Rightarrow> rat \<Rightarrow> string \<Rightarrow> timestamp \<Rightarrow> investment list
   \<Rightarrow> (py_error + investment list) option" where
  "invest_loop commission_rate data end_dt amount frequency current investments =
     (if to_ns current \<le> to_ns end_dt then
        (case filter (\<lambda>p. to_ns current \<le> to_ns (Date p)) data of
           [] \<Rightarrow> Some (Inr investments)
         | first # _ \<Rightarrow>
             if to_ns end_dt < to_ns (Date first) then Some (Inr investments)
             else
               (let price = Close first;
                    net = amount * (1 - commission_rate);
                    shares = fl_div (Fin net) (Fin price);
                    investments' = investments @
                      [\<lparr>inv_shares = shares, inv_commission = amount * commission_rate\<rparr>]
                in case advance_cursor frequency current of
                     Inl e \<Rightarrow> Some (Inl e)
                   | Inr current' \<Rightarrow>
                       invest_loop commission_rate data end_dt amount frequency current'
                         investments'))
      else Some (Inr investments))"

definition simulate_investment ::
  "rat \<Rightarrow> price_point list \<Rightarrow> timestamp \<Rightarrow> timestamp \<Rightarrow> rat \<Rightarrow> string
   \<Rightarrow> (py_error + sim_result) option" where
  "simulate_investment commission_rate data start end_dt amount frequency =
     (case invest_loop commission_rate data end_dt amount frequency start [] of
        None \<Rightarrow> None
      | Some (Inl e) \<Rightarrow> Some (Inl e)
      | Some (Inr investments) \<Rightarrow>
          (let total_invested = of_nat (length investments) * amount;
               total_shares = py_sum (map inv_shares investments)
           in case iloc (filter (\<lambda>p. to_ns (Date p) \<le> to_ns end_dt) data) (- 1) of
                Inl e \<Rightarrow> Some (Inl e)
              | Inr row \<Rightarrow>
                  (let final_price = Close row;
                       final_value = fl_mul total_shares (Fin final_price)
                   in Some (Inr
                        \<lparr>r_count = length investments,
                         r_invested = total_invested,
                         r_commission = sum_list (map inv_commission investments),
                         r_shares = total_shares,
                         r_value = final_value,
                         r_return =
                           fl_mul (fl_div (fl_sub final_value (Fin total_invested))
                                     (Fin total_invested)) (Fin 100),
                         r_final_price = final_price\<rparr>))))"

subsection \<open>\<^verbatim>\<open>run\<close>: choosing at most eight strategies\<close>

fun select_loop :: "'a list \<Rightarrow> rat \<Rightarrow> nat list \<Rightarrow> 'a list \<Rightarrow> py_error + 'a list" where
  "select_loop base_strategies step [] strategies = Inr strategies"
| "select_loop base_strategies step (i # is) strategies =
     (let idx = py_int (of_nat i * step) in
      case iloc base_strategies idx of
        Inl e \<Rightarrow> Inl e
      | Inr s \<Rightarrow> select_loop base_strategies step is (strategies @ [s]))"

definition select_strategies :: "'a list \<Rightarrow> py_error + 'a list" where
  "select_strategies base_strategies =
     (if length base_strategies \<le> 8 then Inr base_strategies
      else select_loop base_strategies (of_nat (length base_strategies) / 8) [0..<8] [])"

subsection \<open>\<^verbatim>\<open>run\<close>: best and worst strategy\<close>

text \<open>
  \<^verbatim>\<open>max(xs, key=k)\<close> keeps the first item and replaces it only by an item whose
  key is greater; \<^verbatim>\<open>min\<close> replaces it only by an item whose key is less.  Both
  raise \<^verbatim>\<open>ValueError\<close> on an empty sequence.
\<close>

fun py_max :: "('a \<Rightarrow> npfloat) \<Rightarrow> 'a list \<Rightarrow> py_error + 'a" where
  "py_max key [] = Inl ValueError"
| "py_max key (x # xs) = Inr (foldl (\<lambda>m e. if fl_less (key m) (key e) then e else m) x xs)"

fun py_min :: "('a \<Rightarrow> npfloat) \<Rightarrow> 'a list \<Rightarrow> py_error + 'a" where
  "py_min key [] = Inl ValueError"
| "py_min key (x # xs) = Inr (foldl (\<lambda>m e. if fl_less (key e) (key m) then e else m) x xs)"

record 'a ranking =
  rk_best :: "'a \<times> sim_result"
  rk_worst :: "'a \<times> sim_result"
  rk_spread :: npfloat
  rk_final_price :: rat

definition rank :: "('a \<times> sim_result) list \<Rightarrow> py_error + 'a ranking" where
  "rank results =
     (case py_max (\<lambda>x. r_return (snd x)) results of
        Inl e \<Rightarrow> Inl e
      | Inr best \<Rightarrow>
          (case py_min (\<lambda>x. r_return (snd x)) results of
             Inl e \<Rightarrow> Inl e
           | Inr worst \<Rightarrow>
               (case iloc results 0 of
                  Inl e \<Rightarrow> Inl e
                | Inr first \<Rightarrow>
                    Inr \<lparr>rk_best = best, rk_worst = worst,
                         rk_spread = fl_sub (r_return (snd best)) (r_return (snd worst)),
                         rk_final_price = r_final_price (snd first)\<rparr>)))"

subsection \<open>Example data\<close>

text \<open>
  A one-point series, a two-point daily series, and a result record with a given
  return, for the examples.
\<close>

definition example_point :: price_point where
  "example_point =
     \<lparr>Date = \<lparr>year = 2024, month = 1, day = 1, tod = 0\<rparr>,
      Open = 100, High = 100, Low = 100, Close = 100, Volume = 1000\<rparr>"


definition res_with_return :: "rat \<Rightarrow> sim_result" where
  "res_with_return x =
     \<lparr>r_count = 1, r_invested = 100, r_commission = 0, r_shares = Fin 1,
      r_value = Fin (100 + x), r_return = Fin x, r_final_price = 100 + x\<rparr>"

section \<open>Calendar steps\<close>

lemma days_in_month_ge_28: "28 \<le> days_in_month y m"
  by (simp add: days_in_month_def)

lemma days_in_month_le_31: "days_in_month y m \<le> 31"
  by (simp add: days_in_month_def)

lemma replace_valid: "valid_date y m d \<Longrightarrow> replace c y m d = Inr (c\<lparr>year := y, month := m, day := d\<rparr>)"
  by (simp add: replace_def)

lemma replace_invalid: "\<not> valid_date y m d \<Longrightarrow> replace c y m d = Inl ValueError"
  by (simp add: replace_def)

lemma monthly_step:
  assumes "valid_ts c"
  shows "advance_cursor ''monthly'' c = Inr (spec_add_months 1 c)"
  using assms days_in_month_ge_28 [of "year c" "month c + 1"] days_in_month_ge_28 [of "year c + 1" 1]
  by (auto simp: advance_cursor_def spec_add_months_def try_except_ValueError_def replace_def
      valid_ts_def valid_date_def Let_def)

lemma quarterly_step:
  assumes "valid_ts c"
  shows "advance_cursor ''quarterly'' c = Inr (spec_add_months 3 c)"
  using assms days_in_month_ge_28 [of "year c" "month c + 3"]
    days_in_month_ge_28 [of "year c + 1" "month c + 3 - 12"]
  by (auto simp: advance_cursor_def spec_add_months_def try_except_ValueError_def replace_def
      valid_ts_def valid_date_def Let_def)

lemma semiannual_step:
  assumes "valid_ts c"
  shows "advance_cursor ''semiannually'' c = Inr (spec_add_months 6 c)"
  using assms days_in_month_ge_28 [of "year c" "month c + 6"]
    days_in_month_ge_28 [of "year c + 1" "month c + 6 - 12"]
  by (auto simp: advance_cursor_def spec_add_months_def try_except_ValueError_def replace_def
      valid_ts_def valid_date_def Let_def)

lemma yearly_step:
  assumes "valid_ts c"
  shows "advance_cursor ''yearly'' c = Inr (spec_add_year c)"
  using assms days_in_month_ge_28 [of "year c + 1" "month c"]
  by (auto simp: advance_cursor_def spec_add_year_def try_except_ValueError_def replace_def
      valid_ts_def valid_date_def Let_def)

text \<open>
  Claim C1.  For every (valid) date the calendar-stepped frequencies move the
  cursor as specified: a monthly step adds one month, a quarterly step three and
  a semiannual step six, each carrying the year past December; a yearly step adds
  one year and keeps month and day; whenever the day does not exist in the target
  month the result is day 1 of that month.  In particular a monthly step from day
  31 lands on day 1 of the next month when that month is shorter than 31 days.
\<close>

theorem calendar_step_clamps_to_day_one:
  assumes "valid_ts c"
  shows "advance_cursor ''monthly'' c = Inr (spec_add_months 1 c)
       \<and> advance_cursor ''quarterly'' c = Inr (spec_add_months 3 c)
       \<and> advance_cursor ''semiannually'' c = Inr (spec_add_months 6 c)
       \<and> advance_cursor ''yearly'' c = Inr (spec_add_year c)
       \<and> (day c = 31 \<and>
            days_in_month (if month c < 12 then year c else year c + 1)
                          (if month c < 12 then month c + 1 else 1) < 31 \<longrightarrow>
            advance_cursor ''monthly'' c = Inr (c\<lparr>month := month c + 1, day := 1\<rparr>))"
proof -
  have "day c = 31 \<Longrightarrow>
        days_in_month (if month c < 12 then year c else year c + 1)
                      (if month c < 12 then month c + 1 else 1) < 31 \<Longrightarrow>
        spec_add_months 1 c = c\<lparr>month := month c + 1, day := 1\<rparr>"
    using assms
    by (auto simp: spec_add_months_def Let_def valid_ts_def valid_date_def days_in_month_def
        split: if_splits)
  then show ?thesis
    using monthly_step [OF assms] quarterly_step [OF assms] semiannual_step [OF assms]
      yearly_step [OF assms]
    by simp
qed

theorem calendar_step_clamps_to_day_one_witness:
  "valid_ts \<lparr>year = 2023, month = 1, day = 31, tod = 0\<rparr>
   \<and> advance_cursor ''monthly'' \<lparr>year = 2023, month = 1, day = 31, tod = 0\<rparr>
       = Inr \<lparr>year = 2023, month = 2, day = 1, tod = 0\<rparr>
   \<and> advance_cursor ''yearly'' \<lparr>year = 2023, month = 1, day = 31, tod = 0\<rparr>
       = Inr \<lparr>year = 2024, month = 1, day = 31, tod = 0\<rparr>"
proof -
  have v: "valid_ts \<lparr>year = 2023, month = 1, day = 31, tod = 0\<rparr>"
    by (simp add: valid_ts_def valid_date_def days_in_month_def day_ns_def hour_ns_def minute_ns_def)
  show ?thesis
    using v calendar_step_clamps_to_day_one [OF v]
    by (simp add: spec_add_months_def spec_add_year_def days_in_month_def is_leap_def Let_def)
qed

section \<open>Granularity detection\<close>

lemma iloc_nat: "i < length xs \<Longrightarrow> iloc xs (int i) = Inr (xs ! i)"
  by (simp add: iloc_def)






section \<open>Strategy catalogue\<close>

text \<open>
  Claim C8.  For each of the six granularity labels
  \<^verbatim>\<open>get_strategies_for_granularity\<close> returns the frequency list of the table, in
  strictly ascending interval order, with between 5 and 8 entries.
\<close>

theorem strategies_table:
  "map frequency_of (get_strategies_for_granularity ''intraday_minute'') =
     [''halfhourly'', ''hourly'', ''3hourly'', ''6hourly'', ''12hourly'', ''daily'', ''3daily'', ''weekly'']
   \<and> map frequency_of (get_strategies_for_granularity ''intraday_hourly'') =
     [''hourly'', ''3hourly'', ''6hourly'', ''12hourly'', ''daily'', ''3daily'', ''weekly'']
   \<and> map frequency_of (get_strategies_for_granularity ''intraday_half_day'') =
     [''12hourly'', ''daily'', ''3daily'', ''weekly'', ''monthly'']
   \<and> map frequency_of (get_strategies_for_granularity ''daily'') =
     [''daily'', ''3daily'', ''weekly'', ''monthly'', ''quarterly'', ''semiannually'']
   \<and> map frequency_of (get_strategies_for_granularity ''daily_plus'') =
     [''weekly'', ''monthly'', ''quarterly'', ''semiannually'', ''yearly'']
   \<and> map frequency_of (get_strategies_for_granularity ''unknown'') =
     [''weekly'', ''monthly'', ''quarterly'', ''semiannually'', ''yearly'']
   \<and> list_all (\<lambda>g. sorted_wrt (<) (map interval_hours_of (get_strategies_for_granularity g))
                  \<and> 5 \<le> length (get_strategies_for_granularity g)
                  \<and> length (get_strategies_for_granularity g) \<le> 8)
        [''intraday_minute'', ''intraday_hourly'', ''intraday_half_day'', ''daily'',
         ''daily_plus'', ''unknown'']"
  by (simp add: get_strategies_for_granularity_def frequency_of_def interval_hours_of_def)

text \<open>
  Claim C10.  \<^verbatim>\<open>get_strategies_for_granularity\<close> is total on label strings: every
  label gives between 5 and 8 strategies, and every label other than the four
  named in the \<^verbatim>\<open>if\<close> chain gives the list of \<^verbatim>\<open>daily_plus\<close> and
  \<^verbatim>\<open>unknown\<close>: weekly, monthly, quarterly, semiannually, yearly.
\<close>

theorem strategies_total:
  "5 \<le> length (get_strategies_for_granularity g)
   \<and> length (get_strategies_for_granularity g) \<le> 8
   \<and> (g \<noteq> ''intraday_minute'' \<and> g \<noteq> ''intraday_hourly'' \<and> g \<noteq> ''intraday_half_day''
        \<and> g \<noteq> ''daily'' \<longrightarrow>
        get_strategies_for_granularity g = get_strategies_for_granularity ''daily_plus''
        \<and> get_strategies_for_granularity g = get_strategies_for_granularity ''unknown''
        \<and> map frequency_of (get_strategies_for_granularity g) =
            [''weekly'', ''monthly'', ''quarterly'', ''semiannually'', ''yearly''])"
  by (simp add: get_strategies_for_granularity_def frequency_of_def)

theorem strategies_total_witness:
  "5 \<le> length (get_strategies_for_granularity ''weekly_bars'')
   \<and> length (get_strategies_for_granularity ''weekly_bars'') \<le> 8
   \<and> get_strategies_for_granularity ''weekly_bars'' = get_strategies_for_granularity ''daily_plus''
   \<and> map frequency_of (get_strategies_for_granularity ''weekly_bars'') =
        [''weekly'', ''monthly'', ''quarterly'', ''semiannually'', ''yearly'']"
proof -
  have "''weekly_bars'' \<noteq> ''intraday_minute'' \<and> ''weekly_bars'' \<noteq> ''intraday_hourly''
        \<and> ''weekly_bars'' \<noteq> ''intraday_half_day'' \<and> ''weekly_bars'' \<noteq> ''daily''"
    by simp
  with strategies_total [of "''weekly_bars''"] show ?thesis
    by blast
qed

section \<open>Selecting at most eight strategies\<close>

lemma py_int_eighths: "py_int (of_nat i * (of_nat n / 8)) = int (i * n div 8)"
proof -
  have "of_nat i * (of_nat n / 8) = (of_nat (i * n) / of_nat 8 :: rat)" by simp
  then have "\<lfloor>of_nat i * (of_nat n / 8 :: rat)\<rfloor> = int (i * n div 8)"
    by (simp only: floor_divide_of_nat_eq)
  then show ?thesis by (simp add: py_int_def)
qed

lemma py_int_eighths': "py_int (of_nat i * of_nat n / 8) = int (i * n div 8)"
  using py_int_eighths [of i n] by simp

lemma select_loop_eq:
  assumes "\<forall>i\<in>set js. i * length xs div 8 < length xs"
  shows "select_loop xs (of_nat (length xs) / 8) js acc =
         Inr (acc @ map (\<lambda>i. xs ! (i * length xs div 8)) js)"
  using assms
proof (induction js arbitrary: acc)
  case Nil
  then show ?case by simp
next
  case (Cons j js)
  then show ?case
    by (simp add: py_int_eighths' iloc_nat)
qed

lemma eighths_in_range: "8 < n \<Longrightarrow> i < 8 \<Longrightarrow> i * n div 8 < (n::nat)"
  by (simp add: less_mult_imp_div_less mult.commute)

text \<open>
  Claim C7.  The selection of \<^verbatim>\<open>run\<close> returns a list of at most 8 entries
  unchanged, and of a longer list exactly the 8 entries at the indices
  \<open>i * length div 8\<close> for \<open>i = 0, ..., 7\<close>, in order; for a list of length 12 these
  are the indices 0, 1, 3, 4, 6, 7, 9, 10.
\<close>

theorem select_strategies_evenly_spaced:
  "select_strategies xs =
     Inr (if length xs \<le> 8 then xs else map (\<lambda>i. xs ! (i * length xs div 8)) [0..<8])
   \<and> (length xs = 12 \<longrightarrow>
        select_strategies xs = Inr [xs ! 0, xs ! 1, xs ! 3, xs ! 4, xs ! 6, xs ! 7, xs ! 9, xs ! 10])"
proof -
  have main: "select_strategies xs =
     Inr (if length xs \<le> 8 then xs else map (\<lambda>i. xs ! (i * length xs div 8)) [0..<8])"
  proof (cases "length xs \<le> 8")
    case True
    then show ?thesis by (simp add: select_strategies_def)
  next
    case False
    then have "\<forall>i\<in>set [0..<8]. i * length xs div 8 < length xs"
      using eighths_in_range [of "length xs"] by auto
    from select_loop_eq [OF this, of "[]"] False show ?thesis
      by (simp add: select_strategies_def)
  qed
  have upt8: "[0..<8] = [0, 1, 2, 3, 4, 5, 6, 7::nat]"
    by (simp add: upt_rec)
  show ?thesis
    using main by (auto simp: upt8)
qed

theorem select_strategies_evenly_spaced_witness:
  "select_strategies [0, 1, 2, 3, 4, 5, 6, 7, 8, 9, 10, 11 :: nat] = Inr [0, 1, 3, 4, 6, 7, 9, 10]"
  using select_strategies_evenly_spaced [of "[0, 1, 2, 3, 4, 5, 6, 7, 8, 9, 10, 11 :: nat]", THEN conjunct2]
  by simp

section \<open>Best and worst strategy\<close>

lemma fl_less_irrefl: "\<not> fl_less a a"
  by (cases a) simp_all

lemma fl_less_trans: "fl_less a b \<Longrightarrow> fl_less b c \<Longrightarrow> fl_less a c"
  by (cases a; cases b; cases c) simp_all

text \<open>
  A left-to-right scan that replaces the kept item only by a strictly better one
  ends at the first item that no item beats.
\<close>

lemma scan_first_extreme:
  assumes irr: "\<And>a. \<not> lt a a"
    and tr: "\<And>a b c. lt a b \<Longrightarrow> lt b c \<Longrightarrow> lt a c"
  shows "\<exists>i<length (x # xs).
           foldl (\<lambda>m e. if lt (key m) (key e) then e else m) x xs = (x # xs) ! i
           \<and> (\<forall>e\<in>set (x # xs). \<not> lt (key ((x # xs) ! i)) (key e))
           \<and> (\<forall>k<i. key ((x # xs) ! k) \<noteq> key ((x # xs) ! i))"
proof (induction xs rule: rev_induct)
  case Nil
  show ?case using irr by simp
next
  case (snoc y ys)
  let ?f = "\<lambda>m e. if lt (key m) (key e) then e else m"
  let ?zs = "x # ys"
  from snoc obtain i where i: "i < length ?zs"
    and res: "foldl ?f x ys = ?zs ! i"
    and mx: "\<forall>e\<in>set ?zs. \<not> lt (key (?zs ! i)) (key e)"
    and fst: "\<forall>k<i. key (?zs ! k) \<noteq> key (?zs ! i)"
    by blast
  have app: "x # ys @ [y] = ?zs @ [y]" by simp
  show ?case
  proof (cases "lt (key (?zs ! i)) (key y)")
    case True
    have r: "foldl ?f x (ys @ [y]) = (?zs @ [y]) ! length ?zs"
      using True res by simp
    have m: "\<forall>e\<in>set (?zs @ [y]). \<not> lt (key y) (key e)"
    proof
      fix e assume "e \<in> set (?zs @ [y])"
      then consider "e = y" | "e \<in> set ?zs" by auto
      then show "\<not> lt (key y) (key e)"
      proof cases
        case 1
        then show ?thesis using irr by simp
      next
        case 2
        then have "\<not> lt (key (?zs ! i)) (key e)" using mx by blast
        then show ?thesis using tr [OF True] by blast
      qed
    qed
    have f: "\<forall>k<length ?zs. key ((?zs @ [y]) ! k) \<noteq> key y"
    proof (intro allI impI)
      fix k assume k: "k < length ?zs"
      then have "?zs ! k \<in> set ?zs" by (rule nth_mem)
      then have "\<not> lt (key (?zs ! i)) (key (?zs ! k))" using mx by blast
      then have "key (?zs ! k) \<noteq> key y" using True by auto
      moreover have "(?zs @ [y]) ! k = ?zs ! k"
        using k by (metis nth_append)
      ultimately show "key ((?zs @ [y]) ! k) \<noteq> key y"
        by simp
    qed
    have "length ?zs < length (?zs @ [y])" by simp
    moreover have "(?zs @ [y]) ! length ?zs = y" by (simp only: nth_append_length)
    ultimately show ?thesis
      unfolding app using r m f by (metis (no_types, lifting))
  next
    case False
    have nth_i: "(?zs @ [y]) ! i = ?zs ! i"
      using i by (metis nth_append)
    have r: "foldl ?f x (ys @ [y]) = (?zs @ [y]) ! i"
      using False res nth_i by simp
    have m: "\<forall>e\<in>set (?zs @ [y]). \<not> lt (key ((?zs @ [y]) ! i)) (key e)"
      using mx False nth_i by auto
    have f: "\<forall>k<i. key ((?zs @ [y]) ! k) \<noteq> key ((?zs @ [y]) ! i)"
    proof (intro allI impI)
      fix k assume k: "k < i"
      then have "k < length ?zs" using i by simp
      then have "(?zs @ [y]) ! k = ?zs ! k" by (metis nth_append)
      then show "key ((?zs @ [y]) ! k) \<noteq> key ((?zs @ [y]) ! i)"
        using fst k nth_i by simp
    qed
    have "i < length (?zs @ [y])" using i by simp
    then show ?thesis
      unfolding app using r m f by (metis (no_types, lifting))
  qed
qed

lemma py_max_first:
  assumes "xs \<noteq> []"
  shows "\<exists>i<length xs. py_max key xs = Inr (xs ! i)
           \<and> (\<forall>e\<in>set xs. \<not> fl_less (key (xs ! i)) (key e))
           \<and> (\<forall>k<i. key (xs ! k) \<noteq> key (xs ! i))"
proof -
  from assms obtain y ys where xs: "xs = y # ys" by (cases xs) auto
  show ?thesis
    unfolding xs py_max.simps
    using scan_first_extreme [where lt = fl_less and key = key and x = y and xs = ys, OF fl_less_irrefl fl_less_trans]
    by simp
qed

lemma py_min_first:
  assumes "xs \<noteq> []"
  shows "\<exists>i<length xs. py_min key xs = Inr (xs ! i)
           \<and> (\<forall>e\<in>set xs. \<not> fl_less (key e) (key (xs ! i)))
           \<and> (\<forall>k<i. key (xs ! k) \<noteq> key (xs ! i))"
proof -
  from assms obtain y ys where xs: "xs = y # ys" by (cases xs) auto
  have irr: "\<And>a. \<not> (\<lambda>a b. fl_less b a) a a" by (simp add: fl_less_irrefl)
  have tr: "\<And>a b c. (\<lambda>a b. fl_less b a) a b \<Longrightarrow> (\<lambda>a b. fl_less b a) b c \<Longrightarrow> (\<lambda>a b. fl_less b a) a c"
    using fl_less_trans by blast
  show ?thesis
    unfolding xs py_min.simps
    using scan_first_extreme [where lt = "\<lambda>a b. fl_less b a" and key = key and x = y and xs = ys, OF irr tr]
    by simp
qed

text \<open>
  Claim C6.  On every non-empty list of (label, result) pairs the ranking of
  \<^verbatim>\<open>run\<close> raises nothing; its best entry is an entry whose return no entry
  exceeds, its worst entry one below whose return no entry lies, each the first
  entry in input order with that return, and the spread is the best return minus
  the worst.  On the returns 5, -2, 5 the first entry is the best one.
\<close>

theorem rank_first_extreme:
  "(results \<noteq> [] \<longrightarrow>
     (\<exists>i j. i < length results \<and> j < length results
        \<and> rank results =
            Inr \<lparr>rk_best = results ! i, rk_worst = results ! j,
                 rk_spread = fl_sub (r_return (snd (results ! i))) (r_return (snd (results ! j))),
                 rk_final_price = r_final_price (snd (results ! 0))\<rparr>
        \<and> (\<forall>e\<in>set results. \<not> fl_less (r_return (snd (results ! i))) (r_return (snd e)))
        \<and> (\<forall>k<i. r_return (snd (results ! k)) \<noteq> r_return (snd (results ! i)))
        \<and> (\<forall>e\<in>set results. \<not> fl_less (r_return (snd e)) (r_return (snd (results ! j))))
        \<and> (\<forall>k<j. r_return (snd (results ! k)) \<noteq> r_return (snd (results ! j)))))
   \<and> (r_return ra = Fin 5 \<and> r_return rb = Fin (- 2) \<and> r_return rc = Fin 5 \<longrightarrow>
        (\<exists>rk. rank [(a, ra), (b, rb), (c, rc)] = Inr rk
           \<and> rk_best rk = (a, ra) \<and> rk_worst rk = (b, rb) \<and> rk_spread rk = Fin 7))"
proof (intro conjI impI)
  assume ne: "results \<noteq> []"
  let ?key = "\<lambda>x::'a \<times> sim_result. r_return (snd x)"
  from py_max_first [OF ne, of ?key] obtain i where i: "i < length results"
    and mx: "py_max ?key results = Inr (results ! i)"
    and mx1: "\<forall>e\<in>set results. \<not> fl_less (?key (results ! i)) (?key e)"
    and mx2: "\<forall>k<i. ?key (results ! k) \<noteq> ?key (results ! i)"
    by blast
  from py_min_first [OF ne, of ?key] obtain j where j: "j < length results"
    and mn: "py_min ?key results = Inr (results ! j)"
    and mn1: "\<forall>e\<in>set results. \<not> fl_less (?key e) (?key (results ! j))"
    and mn2: "\<forall>k<j. ?key (results ! k) \<noteq> ?key (results ! j)"
    by blast
  have first: "iloc results 0 = Inr (results ! 0)"
    using ne by (simp add: iloc_def)
  have "rank results =
      Inr \<lparr>rk_best = results ! i, rk_worst = results ! j,
           rk_spread = fl_sub (r_return (snd (results ! i))) (r_return (snd (results ! j))),
           rk_final_price = r_final_price (snd (results ! 0))\<rparr>"
    by (simp add: rank_def mx mn first)
  with i j mx1 mx2 mn1 mn2
  show "\<exists>i j. i < length results \<and> j < length results
        \<and> rank results =
            Inr \<lparr>rk_best = results ! i, rk_worst = results ! j,
                 rk_spread = fl_sub (r_return (snd (results ! i))) (r_return (snd (results ! j))),
                 rk_final_price = r_final_price (snd (results ! 0))\<rparr>
        \<and> (\<forall>e\<in>set results. \<not> fl_less (r_return (snd (results ! i))) (r_return (snd e)))
        \<and> (\<forall>k<i. r_return (snd (results ! k)) \<noteq> r_return (snd (results ! i)))
        \<and> (\<forall>e\<in>set results. \<not> fl_less (r_return (snd e)) (r_return (snd (results ! j))))
        \<and> (\<forall>k<j. r_return (snd (results ! k)) \<noteq> r_return (snd (results ! j)))"
    by blast
next
  assume "r_return ra = Fin 5 \<and> r_return rb = Fin (- 2) \<and> r_return rc = Fin 5"
  then show "\<exists>rk. rank [(a, ra), (b, rb), (c, rc)] = Inr rk
           \<and> rk_best rk = (a, ra) \<and> rk_worst rk = (b, rb) \<and> rk_spread rk = Fin 7"
    by (simp add: rank_def iloc_def fl_sub_def)
qed


theorem rank_first_extreme_witness:
  "[(''A'', res_with_return 5), (''B'', res_with_return (- 2)), (''C'', res_with_return 5)] \<noteq> []
   \<and> (\<exists>i. i < 3
         \<and> (\<forall>e\<in>set [(''A'', res_with_return 5), (''B'', res_with_return (- 2)),
                       (''C'', res_with_return 5)].
               \<not> fl_less (r_return (snd ([(''A'', res_with_return 5), (''B'', res_with_return (- 2)),
                                             (''C'', res_with_return 5)] ! i)))
                            (r_return (snd e))))
   \<and> (\<exists>rk. rank [(''A'', res_with_return 5), (''B'', res_with_return (- 2)), (''C'', res_with_return 5)]
              = Inr rk
         \<and> rk_best rk = (''A'', res_with_return 5)
         \<and> rk_worst rk = (''B'', res_with_return (- 2))
         \<and> rk_spread rk = Fin 7)"
proof -
  let ?xs = "[(''A'', res_with_return 5), (''B'', res_with_return (- 2)), (''C'', res_with_return 5)]"
  note inst = rank_first_extreme [of ?xs "res_with_return 5" "res_with_return (- 2)"
      "res_with_return 5" "''A''" "''B''" "''C''"]
  have ne: "?xs \<noteq> []" by simp
  have len: "length ?xs = 3" by simp
  have rs: "r_return (res_with_return 5) = Fin 5 \<and> r_return (res_with_return (- 2)) = Fin (- 2)
        \<and> r_return (res_with_return 5) = Fin 5"
    by (simp add: res_with_return_def)
  from inst [THEN conjunct1] ne have
    "\<exists>i. i < length ?xs
         \<and> (\<forall>e\<in>set ?xs. \<not> fl_less (r_return (snd (?xs ! i))) (r_return (snd e)))"
    by blast
  then have first: "\<exists>i. i < 3
         \<and> (\<forall>e\<in>set ?xs. \<not> fl_less (r_return (snd (?xs ! i))) (r_return (snd e)))"
    unfolding len .
  from inst [THEN conjunct2] rs have second: "\<exists>rk. rank ?xs = Inr rk
         \<and> rk_best rk = (''A'', res_with_return 5)
         \<and> rk_worst rk = (''B'', res_with_return (- 2))
         \<and> rk_spread rk = Fin 7"
    by blast
  from ne first second show ?thesis by blast
qed

section \<open>Simulation: the final price and the empty schedule\<close>


lemma iloc_last_Nil: "iloc [] (- 1) = Inl IndexError"
  by (simp add: iloc_def)

lemma iloc_last: "xs \<noteq> [] \<Longrightarrow> iloc xs (- 1) = Inr (last xs)"
  by (cases xs rule: rev_cases) (simp_all add: iloc_def nat_add_distrib)

lemma invest_loop_no_point_before_end:
  assumes "\<forall>p\<in>set data. to_ns end_dt < to_ns (Date p)"
  shows "invest_loop rate data end_dt amount frequency current investments = Some (Inr investments)"
proof (cases "filter (\<lambda>p. to_ns current \<le> to_ns (Date p)) data")
  case Nil
  then show ?thesis by (subst invest_loop.simps) simp
next
  case (Cons first rest)
  then have "first \<in> set data"
    by (metis filter_is_subset list.set_intros(1) subsetD)
  then have "to_ns end_dt < to_ns (Date first)" using assms by blast
  then show ?thesis using Cons by (subst invest_loop.simps) simp
qed

lemma advance_cursor_error: "advance_cursor f c = Inl e \<Longrightarrow> e = ValueError"
  by (auto simp: advance_cursor_def try_except_ValueError_def replace_def Let_def
      split: if_splits sum.splits py_error.splits)

lemma invest_loop_error_aux:
  "invest_loop rate data end_dt amount frequency current investments = Some r \<Longrightarrow>
   \<forall>e. r = Inl e \<longrightarrow> e = ValueError"
  by (erule invest_loop.raw_induct [rotated])
    (auto split: if_splits list.splits sum.splits simp: Let_def dest: advance_cursor_error)

lemma invest_loop_error:
  "invest_loop rate data end_dt amount frequency current investments = Some (Inl e) \<Longrightarrow> e = ValueError"
  using invest_loop_error_aux by blast

lemma index_error_only_without_final_price:
  assumes "simulate_investment rate data start end_dt amount frequency = Some (Inl IndexError)"
  shows "\<forall>p\<in>set data. to_ns end_dt < to_ns (Date p)"
proof (rule ccontr)
  assume "\<not> (\<forall>p\<in>set data. to_ns end_dt < to_ns (Date p))"
  then have ne: "filter (\<lambda>p. to_ns (Date p) \<le> to_ns end_dt) data \<noteq> []"
    by (force simp: filter_empty_conv not_less)
  show False
    using assms invest_loop_error [of rate data end_dt amount frequency start "[]"]
    by (auto simp: simulate_investment_def iloc_last [OF ne] Let_def
        split: option.splits sum.splits)
qed

text \<open>
  Claim C5.  When the series has no point at or before \<open>end_dt\<close>,
  \<^verbatim>\<open>simulate_investment\<close> returns no result: the lookup of the final price raises
  \<^verbatim>\<open>IndexError\<close>.  This is the only way it raises \<^verbatim>\<open>IndexError\<close>.
\<close>

theorem no_final_price_raises:
  "(simulate_investment rate data start end_dt amount frequency = Some (Inl IndexError))
   = (\<forall>p\<in>set data. to_ns end_dt < to_ns (Date p))"
proof
  assume "simulate_investment rate data start end_dt amount frequency = Some (Inl IndexError)"
  then show "\<forall>p\<in>set data. to_ns end_dt < to_ns (Date p)"
    by (rule index_error_only_without_final_price)
next
  assume a: "\<forall>p\<in>set data. to_ns end_dt < to_ns (Date p)"
  then have "filter (\<lambda>p. to_ns (Date p) \<le> to_ns end_dt) data = []"
    by (auto simp: filter_empty_conv)
  then show "simulate_investment rate data start end_dt amount frequency = Some (Inl IndexError)"
    by (simp add: simulate_investment_def invest_loop_no_point_before_end [OF a] iloc_last_Nil)
qed

theorem no_final_price_raises_witness:
  "to_ns \<lparr>year = 2023, month = 12, day = 1, tod = 0\<rparr> < to_ns (Date example_point)
   \<and> simulate_investment (1 / 1000) [example_point]
       \<lparr>year = 2023, month = 11, day = 1, tod = 0\<rparr> \<lparr>year = 2023, month = 12, day = 1, tod = 0\<rparr>
       50 ''weekly'' = Some (Inl IndexError)"
proof -
  have h: "to_ns \<lparr>year = 2023, month = 12, day = 1, tod = 0\<rparr> < to_ns (Date example_point)"
    by (simp add: example_point_def to_ns_def day_number_def days_before_month_def
        days_in_month_def is_leap_def upt_rec
        days_before_year_def day_ns_def hour_ns_def minute_ns_def)
  then have "\<forall>p\<in>set [example_point].
       to_ns \<lparr>year = 2023, month = 12, day = 1, tod = 0\<rparr> < to_ns (Date p)"
    by simp
  with no_final_price_raises [of "1 / 1000" "[example_point]"
      "\<lparr>year = 2023, month = 11, day = 1, tod = 0\<rparr>"
      "\<lparr>year = 2023, month = 12, day = 1, tod = 0\<rparr>" 50 "''weekly''"] h
  show ?thesis by blast
qed

lemma example_no_contribution:
  "simulate_investment (1 / 1000) [example_point]
       \<lparr>year = 2024, month = 2, day = 1, tod = 0\<rparr> \<lparr>year = 2024, month = 3, day = 1, tod = 0\<rparr>
       50 ''weekly''
     = Some (Inr \<lparr>r_count = 0, r_invested = 0, r_commission = 0, r_shares = Fin 0,
                  r_value = Fin 0, r_return = NaN, r_final_price = 100\<rparr>)"
proof -
  have loop: "invest_loop (1 / 1000) [example_point] \<lparr>year = 2024, month = 3, day = 1, tod = 0\<rparr> 50
          ''weekly'' \<lparr>year = 2024, month = 2, day = 1, tod = 0\<rparr> [] = Some (Inr [])"
    by (subst invest_loop.simps)
      (simp add: example_point_def to_ns_def day_number_def days_before_month_def
        days_in_month_def is_leap_def upt_rec
        days_before_year_def day_ns_def hour_ns_def minute_ns_def)
  show ?thesis
    unfolding simulate_investment_def loop
    by (simp add: Let_def iloc_def py_sum_def fl_sub_def example_point_def
        to_ns_def day_number_def days_before_month_def days_in_month_def is_leap_def upt_rec
        days_before_year_def day_ns_def hour_ns_def minute_ns_def)
qed

text \<open>
  Claim C4, as the code has it.  A call that makes no contribution and finds a
  final price returns a result with count, invested amount, commission, shares
  and value all zero and the return \<open>NaN\<close> (numpy's 0 / 0); the result record has
  no field that flags the state.
\<close>

theorem zero_contributions_return_nan:
  "simulate_investment rate data start end_dt amount frequency = Some (Inr r) \<and> r_count r = 0 \<longrightarrow>
     r_invested r = 0 \<and> r_commission r = 0 \<and> r_shares r = Fin 0 \<and> r_value r = Fin 0
     \<and> r_return r = NaN"
  by (auto simp: simulate_investment_def Let_def py_sum_def fl_sub_def
      split: option.splits sum.splits)

theorem zero_contributions_return_nan_witness:
  "(simulate_investment (1 / 1000) [example_point]
       \<lparr>year = 2024, month = 2, day = 1, tod = 0\<rparr> \<lparr>year = 2024, month = 3, day = 1, tod = 0\<rparr>
       50 ''weekly''
     = Some (Inr \<lparr>r_count = 0, r_invested = 0, r_commission = 0, r_shares = Fin 0,
                  r_value = Fin 0, r_return = NaN, r_final_price = 100\<rparr>)
    \<and> r_count \<lparr>r_count = 0, r_invested = 0, r_commission = 0, r_shares = Fin 0,
                  r_value = Fin 0, r_return = NaN, r_final_price = 100\<rparr> = 0)
   \<and> r_return \<lparr>r_count = 0, r_invested = 0, r_commission = 0, r_shares = Fin 0,
                  r_value = Fin 0, r_return = NaN, r_final_price = 100\<rparr> = NaN"
proof -
  have h: "simulate_investment (1 / 1000) [example_point]
       \<lparr>year = 2024, month = 2, day = 1, tod = 0\<rparr> \<lparr>year = 2024, month = 3, day = 1, tod = 0\<rparr>
       50 ''weekly''
     = Some (Inr \<lparr>r_count = 0, r_invested = 0, r_commission = 0, r_shares = Fin 0,
                  r_value = Fin 0, r_return = NaN, r_final_price = 100\<rparr>)
    \<and> r_count \<lparr>r_count = 0, r_invested = 0, r_commission = 0, r_shares = Fin 0,
                  r_value = Fin 0, r_return = NaN, r_final_price = 100\<rparr> = 0"
    using example_no_contribution by simp
  from zero_contributions_return_nan [of "1 / 1000" "[example_point]"
      "\<lparr>year = 2024, month = 2, day = 1, tod = 0\<rparr>"
      "\<lparr>year = 2024, month = 3, day = 1, tod = 0\<rparr>" 50 "''weekly''"
      "\<lparr>r_count = 0, r_invested = 0, r_commission = 0, r_shares = Fin 0,
        r_value = Fin 0, r_return = NaN, r_final_price = 100\<rparr>"] h
  show ?thesis by blast
qed

text \<open>
  The claim as the specification states it fails: the call below makes no
  contribution and its result carries the return \<open>NaN\<close>.
\<close>

theorem zero_contributions_counterexample:
  "simulate_investment (1 / 1000) [example_point]
       \<lparr>year = 2024, month = 2, day = 1, tod = 0\<rparr> \<lparr>year = 2024, month = 3, day = 1, tod = 0\<rparr>
       50 ''weekly''
     = Some (Inr \<lparr>r_count = 0, r_invested = 0, r_commission = 0, r_shares = Fin 0,
                  r_value = Fin 0, r_return = NaN, r_final_price = 100\<rparr>)"
  by (rule example_no_contribution)

section \<open>The time line and the end of the contribution loop\<close>

lemma div_step:
  assumes n: "0 < (n::int)"
  shows "y div n - (y - 1) div n = (if y mod n = 0 then 1 else 0)"
proof (cases "y mod n = 0")
  case True
  have "y = n * (y div n) + y mod n" by simp
  with True have "y - 1 = n * (y div n - 1) + (n - 1)" by (simp add: algebra_simps)
  then have "(y - 1) div n = y div n - 1"
    using n by (intro int_div_pos_eq [where r = "n - 1"]) simp_all
  with True show ?thesis by simp
next
  case False
  have r: "0 \<le> y mod n" "y mod n < n" using n by simp_all
  have "y = n * (y div n) + y mod n" by simp
  then have "y - 1 = n * (y div n) + (y mod n - 1)" by simp
  then have "(y - 1) div n = y div n"
    using r False by (intro int_div_pos_eq [where r = "y mod n - 1"]) simp_all
  with False show ?thesis by simp
qed

lemma mod_400_100: "(y::int) mod 400 = 0 \<Longrightarrow> y mod 100 = 0"
proof -
  assume "y mod 400 = 0"
  then have "400 dvd y" by (simp add: mod_eq_0_iff_dvd)
  moreover have "(100::int) dvd 400" by simp
  ultimately have "100 dvd y" by (rule dvd_trans [rotated])
  then show ?thesis by (simp add: mod_eq_0_iff_dvd)
qed

lemma mod_100_4: "(y::int) mod 100 = 0 \<Longrightarrow> y mod 4 = 0"
proof -
  assume "y mod 100 = 0"
  then have "100 dvd y" by (simp add: mod_eq_0_iff_dvd)
  moreover have "(4::int) dvd 100" by simp
  ultimately have "4 dvd y" by (rule dvd_trans [rotated])
  then show ?thesis by (simp add: mod_eq_0_iff_dvd)
qed

lemma leap_indicator:
  assumes "b400 \<Longrightarrow> b100" and "b100 \<Longrightarrow> b4"
  shows "(if b4 \<and> (\<not> b100 \<or> b400) then 1 else 0 :: int)
       = (if b4 then 1 else 0) - (if b100 then 1 else 0) + (if b400 then 1 else 0)"
  using assms by (cases b4; cases b100; cases b400) simp_all

lemma year_length_arith:
  assumes "a = q4 + i4" and "b = q100 + i100" and "c = q400 + i400" and "l = i4 - i100 + i400"
  shows "365 * y + a - b + c = 365 * (y - 1) + q4 - q100 + q400 + 365 + (l::int)"
  using assms by (simp add: algebra_simps)

lemma days_before_next_year:
  "days_before_year (y + 1) = days_before_year y + 365 + (if is_leap y then 1 else 0)"
proof -
  have d4: "y div 4 = (y - 1) div 4 + (if y mod 4 = 0 then 1 else 0)"
    using div_step [of 4 y] by (simp only: diff_eq_eq zero_less_numeral if_True add.commute)
  have d100: "y div 100 = (y - 1) div 100 + (if y mod 100 = 0 then 1 else 0)"
    using div_step [of 100 y] by (simp only: diff_eq_eq zero_less_numeral if_True add.commute)
  have d400: "y div 400 = (y - 1) div 400 + (if y mod 400 = 0 then 1 else 0)"
    using div_step [of 400 y] by (simp only: diff_eq_eq zero_less_numeral if_True add.commute)
  have l: "(if is_leap y then 1 else 0 :: int)
      = (if y mod 4 = 0 then 1 else 0) - (if y mod 100 = 0 then 1 else 0)
        + (if y mod 400 = 0 then 1 else 0)"
    unfolding is_leap_def
    by (rule leap_indicator) (erule mod_400_100, erule mod_100_4)
  have "365 * y + y div 4 - y div 100 + y div 400
      = 365 * (y - 1) + (y - 1) div 4 - (y - 1) div 100 + (y - 1) div 400 + 365
        + (if is_leap y then 1 else 0)"
    by (rule year_length_arith [OF d4 d100 d400 l])
  then show ?thesis
    unfolding days_before_year_def by (simp only: add_diff_cancel_right')
qed

lemma days_before_month_Suc:
  "1 \<le> m \<Longrightarrow> days_before_month y (Suc m) = days_before_month y m + days_in_month y m"
  by (simp add: days_before_month_def)

lemma days_before_month_mono:
  "m \<le> m' \<Longrightarrow> days_before_month y m \<le> days_before_month y m'"
proof (induction m' rule: dec_induct)
  case base
  show ?case by simp
next
  case (step n)
  have "days_before_month y n \<le> days_before_month y (Suc n)"
    by (cases "1 \<le> n") (simp_all add: days_before_month_Suc, simp add: days_before_month_def)
  with step show ?case by simp
qed

lemma days_before_month_13:
  "days_before_month y 13 = 365 + (if is_leap y then 1 else 0)"
  by (simp add: days_before_month_def days_in_month_def upt_rec)

lemma days_before_month_1: "days_before_month y 1 = 0" "days_before_month y (Suc 0) = 0"
  by (simp_all add: days_before_month_def)

lemma day_number_upper:
  assumes "valid_ts c"
  shows "day_number c \<le> days_before_year (year c + 1)"
proof -
  from assms have m: "1 \<le> month c" "month c \<le> 12" and d: "day c \<le> days_in_month (year c) (month c)"
    by (simp_all add: valid_ts_def valid_date_def)
  have "days_before_month (year c) (month c) + day c \<le> days_before_month (year c) (Suc (month c))"
    using d m by (simp add: days_before_month_Suc)
  also have "\<dots> \<le> days_before_month (year c) 13"
    using m by (intro days_before_month_mono) simp
  finally have "int (days_before_month (year c) (month c)) + int (day c)
      \<le> 365 + (if is_leap (year c) then 1 else 0)"
    by (simp add: days_before_month_13 split: if_splits)
  then show ?thesis
    by (simp add: day_number_def days_before_next_year)
qed

lemma day_number_lower: "1 \<le> day c \<Longrightarrow> days_before_year (year c) + 1 \<le> day_number c"
  by (simp add: day_number_def)

lemma to_ns_later:
  assumes "day_number c < day_number c'" and "tod c = tod c'"
  shows "to_ns c < to_ns c'"
proof -
  have pos: "0 < int day_ns" by (simp add: day_ns_def hour_ns_def minute_ns_def)
  have "day_number c * int day_ns < day_number c' * int day_ns"
    using assms(1) pos by (rule mult_strict_right_mono)
  then show ?thesis
    unfolding to_ns_def assms(2) by (rule add_strict_right_mono)
qed

lemma next_day_props:
  assumes "valid_ts c"
  shows "valid_ts (next_day c) \<and> day_number (next_day c) = day_number c + 1
         \<and> tod (next_day c) = tod c"
proof -
  from assms have m: "1 \<le> month c" "month c \<le> 12" and d: "1 \<le> day c"
    "day c \<le> days_in_month (year c) (month c)" and t: "tod c < day_ns"
    by (simp_all add: valid_ts_def valid_date_def)
  show ?thesis
  proof (cases "day c < days_in_month (year c) (month c)")
    case True
    then show ?thesis using m d t
      by (simp add: next_day_def valid_ts_def valid_date_def day_number_def)
  next
    case False
    with d have de: "day c = days_in_month (year c) (month c)" by simp
    show ?thesis
    proof (cases "month c < 12")
      case True
      have "28 \<le> days_in_month (year c) (month c + 1)" by (rule days_in_month_ge_28)
      then show ?thesis using True False m d t de days_before_month_Suc [of "month c" "year c"]
        by (simp add: next_day_def valid_ts_def valid_date_def day_number_def)
    next
      case False
      with m have m12: "month c = 12" by simp
      have "days_before_month (year c) 13 = days_before_month (year c) 12 + days_in_month (year c) 12"
        using days_before_month_Suc [of 12 "year c"] by simp
      then have "int (days_before_month (year c) 12) + int (day c)
          = 365 + (if is_leap (year c) then 1 else 0)"
        using de m12 by (simp add: days_before_month_13 split: if_splits)
      then show ?thesis using m12 de t \<open>\<not> day c < days_in_month (year c) (month c)\<close>
        by (simp add: next_day_def valid_ts_def valid_date_def day_number_def
            days_before_next_year days_before_month_1 days_in_month_def)
    qed
  qed
qed

lemma next_days_props:
  assumes "valid_ts c"
  shows "valid_ts ((next_day ^^ k) c) \<and> day_number ((next_day ^^ k) c) = day_number c + int k
         \<and> tod ((next_day ^^ k) c) = tod c"
proof (induction k)
  case 0
  show ?case using assms by simp
next
  case (Suc k)
  then show ?case using next_day_props [of "(next_day ^^ k) c"] by simp
qed

lemma add_timedelta_props:
  assumes "valid_ts c"
  shows "valid_ts (add_timedelta c n) \<and> to_ns (add_timedelta c n) = to_ns c + int n"
proof -
  define t where "t = tod c + n"
  define c' where "c' = (next_day ^^ (t div day_ns)) c"
  have c': "valid_ts c'" "day_number c' = day_number c + int (t div day_ns)"
    using next_days_props [OF assms, of "t div day_ns"] by (simp_all add: c'_def)
  have pos: "0 < day_ns" by (simp add: day_ns_def hour_ns_def minute_ns_def)
  have eq: "add_timedelta c n = c'\<lparr>tod := t mod day_ns\<rparr>"
    by (simp add: add_timedelta_def t_def c'_def Let_def)
  have v: "valid_ts (c'\<lparr>tod := t mod day_ns\<rparr>)"
    using c'(1) pos by (simp add: valid_ts_def)
  have dn: "day_number (c'\<lparr>tod := t mod day_ns\<rparr>) = day_number c + int (t div day_ns)"
    using c'(2) by (simp add: day_number_def)
  have "int (t div day_ns) * int day_ns + int (t mod day_ns) = int t"
    by (metis div_mult_mod_eq of_nat_add of_nat_mult)
  then have "to_ns (c'\<lparr>tod := t mod day_ns\<rparr>) = day_number c * int day_ns + int t"
    using dn by (simp add: to_ns_def algebra_simps)
  then have "to_ns (c'\<lparr>tod := t mod day_ns\<rparr>) = to_ns c + int n"
    by (simp add: to_ns_def t_def)
  with v eq show ?thesis by simp
qed

lemma spec_add_months_later:
  assumes v: "valid_ts c" and k: "1 \<le> k" "k \<le> 12"
  shows "valid_ts (spec_add_months k c) \<and> to_ns c < to_ns (spec_add_months k c)"
proof -
  from v have m: "1 \<le> month c" "month c \<le> 12" and d: "1 \<le> day c"
    "day c \<le> days_in_month (year c) (month c)" and t: "tod c < day_ns"
    by (simp_all add: valid_ts_def valid_date_def)
  define c' where "c' = spec_add_months k c"
  have td: "tod c' = tod c" by (simp add: c'_def spec_add_months_def Let_def)
  have d': "1 \<le> day c'" "day c' \<le> days_in_month (year c') (month c')"
    using d days_in_month_ge_28 [of "year c'" "month c'"]
    by (auto simp: c'_def spec_add_months_def Let_def)
  have m': "1 \<le> month c'" "month c' \<le> 12"
    using m k by (auto simp: c'_def spec_add_months_def Let_def)
  have valid: "valid_ts c'"
    using d' m' t td by (simp add: valid_ts_def valid_date_def)
  have "day_number c < day_number c'"
  proof (cases "month c + k > 12")
    case True
    then have y: "year c' = year c + 1" by (simp add: c'_def spec_add_months_def Let_def)
    have "day_number c \<le> days_before_year (year c + 1)" by (rule day_number_upper [OF v])
    also have "\<dots> < day_number c'" using day_number_lower [OF d'(1)] y by simp
    finally show ?thesis .
  next
    case False
    then have y: "year c' = year c" and mm: "month c' = month c + k"
      by (simp_all add: c'_def spec_add_months_def Let_def)
    have "days_before_month (year c) (month c) + day c \<le> days_before_month (year c) (Suc (month c))"
      using d m by (simp add: days_before_month_Suc)
    also have "\<dots> \<le> days_before_month (year c) (month c')"
      using k mm by (intro days_before_month_mono) simp
    finally show ?thesis using d'(1) y by (simp add: day_number_def)
  qed
  then have "to_ns c < to_ns c'" using td by (intro to_ns_later) simp_all
  with valid show ?thesis by (simp add: c'_def)
qed

lemma spec_add_year_later:
  assumes v: "valid_ts c"
  shows "valid_ts (spec_add_year c) \<and> to_ns c < to_ns (spec_add_year c)"
proof -
  from v have m: "1 \<le> month c" "month c \<le> 12" and d: "1 \<le> day c"
    and t: "tod c < day_ns"
    by (simp_all add: valid_ts_def valid_date_def)
  define c' where "c' = spec_add_year c"
  have td: "tod c' = tod c" and y: "year c' = year c + 1" and mm: "month c' = month c"
    by (simp_all add: c'_def spec_add_year_def Let_def)
  have d': "1 \<le> day c'" "day c' \<le> days_in_month (year c') (month c')"
    using d days_in_month_ge_28 [of "year c + 1" "month c"]
    by (auto simp: c'_def spec_add_year_def Let_def)
  have valid: "valid_ts c'"
    using d' m mm t td by (simp add: valid_ts_def valid_date_def)
  have "day_number c \<le> days_before_year (year c + 1)" by (rule day_number_upper [OF v])
  also have "\<dots> < day_number c'" using day_number_lower [OF d'(1)] y by simp
  finally have "to_ns c < to_ns c'" using td by (intro to_ns_later) simp_all
  with valid show ?thesis by (simp add: c'_def)
qed

lemma advance_timedelta_later:
  assumes v: "valid_ts c" and n: "0 < n"
  shows "valid_ts (add_timedelta c n) \<and> to_ns c < to_ns (add_timedelta c n)"
  using add_timedelta_props [OF v, of n] n by simp

lemma ns_pos: "0 < minute_ns" "0 < hour_ns" "0 < day_ns"
  by (simp_all add: day_ns_def hour_ns_def minute_ns_def)

lemma advance_fixed:
  "advance_cursor ''halfhourly'' c = Inr (add_timedelta c (30 * minute_ns))"
  "advance_cursor ''hourly'' c = Inr (add_timedelta c hour_ns)"
  "advance_cursor ''3hourly'' c = Inr (add_timedelta c (3 * hour_ns))"
  "advance_cursor ''6hourly'' c = Inr (add_timedelta c (6 * hour_ns))"
  "advance_cursor ''12hourly'' c = Inr (add_timedelta c (12 * hour_ns))"
  "advance_cursor ''daily'' c = Inr (add_timedelta c day_ns)"
  "advance_cursor ''3daily'' c = Inr (add_timedelta c (3 * day_ns))"
  "advance_cursor ''weekly'' c = Inr (add_timedelta c (7 * day_ns))"
  by (simp_all add: advance_cursor_def)

lemma advance_cursor_later:
  assumes v: "valid_ts c" and f: "f \<in> set recognized_frequencies"
  shows "\<exists>c'. advance_cursor f c = Inr c' \<and> valid_ts c' \<and> to_ns c < to_ns c'"
proof -
  from f have "f = ''halfhourly'' \<or> f = ''hourly'' \<or> f = ''3hourly'' \<or> f = ''6hourly''
    \<or> f = ''12hourly'' \<or> f = ''daily'' \<or> f = ''3daily'' \<or> f = ''weekly''
    \<or> f = ''monthly'' \<or> f = ''quarterly'' \<or> f = ''semiannually'' \<or> f = ''yearly''"
    by (simp only: recognized_frequencies_def list.set insert_iff empty_iff simp_thms)
  then show ?thesis
  proof (elim disjE)
    assume "f = ''halfhourly''"
    then show ?thesis
      using advance_timedelta_later [OF v, of "30 * minute_ns"] ns_pos
      by (simp only: advance_fixed) simp
  next
    assume "f = ''hourly''"
    then show ?thesis
      using advance_timedelta_later [OF v, of hour_ns] ns_pos
      by (simp only: advance_fixed) simp
  next
    assume "f = ''3hourly''"
    then show ?thesis
      using advance_timedelta_later [OF v, of "3 * hour_ns"] ns_pos
      by (simp only: advance_fixed) simp
  next
    assume "f = ''6hourly''"
    then show ?thesis
      using advance_timedelta_later [OF v, of "6 * hour_ns"] ns_pos
      by (simp only: advance_fixed) simp
  next
    assume "f = ''12hourly''"
    then show ?thesis
      using advance_timedelta_later [OF v, of "12 * hour_ns"] ns_pos
      by (simp only: advance_fixed) simp
  next
    assume "f = ''daily''"
    then show ?thesis
      using advance_timedelta_later [OF v, of day_ns] ns_pos
      by (simp only: advance_fixed) simp
  next
    assume "f = ''3daily''"
    then show ?thesis
      using advance_timedelta_later [OF v, of "3 * day_ns"] ns_pos
      by (simp only: advance_fixed) simp
  next
    assume "f = ''weekly''"
    then show ?thesis
      using advance_timedelta_later [OF v, of "7 * day_ns"] ns_pos
      by (simp only: advance_fixed) simp
  next
    assume "f = ''monthly''"
    then show ?thesis
      using monthly_step [OF v] spec_add_months_later [OF v, of 1] by simp
  next
    assume "f = ''quarterly''"
    then show ?thesis
      using quarterly_step [OF v] spec_add_months_later [OF v, of 3] by simp
  next
    assume "f = ''semiannually''"
    then show ?thesis
      using semiannual_step [OF v] spec_add_months_later [OF v, of 6] by simp
  next
    assume "f = ''yearly''"
    then show ?thesis
      using yearly_step [OF v] spec_add_year_later [OF v] by simp
  qed
qed

lemma invest_loop_terminates:
  assumes "valid_ts c" and f: "f \<in> set recognized_frequencies"
  shows "\<exists>invs. invest_loop rate data end_dt amount f c acc = Some (Inr invs)"
  using assms(1)
proof (induction "nat (to_ns end_dt + 1 - to_ns c)" arbitrary: c acc rule: less_induct)
  case less
  show ?case
  proof (cases "to_ns c \<le> to_ns end_dt")
    case False
    then show ?thesis by (subst invest_loop.simps) simp
  next
    case le: True
    show ?thesis
    proof (cases "filter (\<lambda>p. to_ns c \<le> to_ns (Date p)) data")
      case Nil
      then show ?thesis using le by (subst invest_loop.simps) simp
    next
      case (Cons first rest)
      show ?thesis
      proof (cases "to_ns end_dt < to_ns (Date first)")
        case True
        then show ?thesis using le Cons by (subst invest_loop.simps) simp
      next
        case False
        from advance_cursor_later [OF less.prems f] obtain c' where
          adv: "advance_cursor f c = Inr c'" and v': "valid_ts c'" and lt: "to_ns c < to_ns c'"
          by blast
        have "nat (to_ns end_dt + 1 - to_ns c') < nat (to_ns end_dt + 1 - to_ns c)"
          using lt le by simp
        from less.hyps [OF this v'] show ?thesis
          using le Cons False adv by (subst invest_loop.simps) (simp add: Let_def)
      qed
    qed
  qed
qed

text \<open>
  Claim C9.  For every series, every (valid) start date, every end date and each
  of the twelve recognized frequency codes the contribution loop ends and raises
  nothing, so \<^verbatim>\<open>simulate_investment\<close> returns: each step of the cursor, the
  fallback to day 1 included, lands on a valid date strictly later than the
  cursor.
\<close>

theorem contribution_loop_terminates:
  "valid_ts start \<and> frequency \<in> set recognized_frequencies \<longrightarrow>
     (\<exists>investments. invest_loop rate data end_dt amount frequency start [] = Some (Inr investments))
     \<and> (\<exists>result. simulate_investment rate data start end_dt amount frequency = Some result)
     \<and> (\<forall>current. valid_ts current \<longrightarrow>
          (\<exists>next. advance_cursor frequency current = Inr next \<and> valid_ts next
             \<and> to_ns current < to_ns next))"
proof (intro impI conjI allI)
  assume a: "valid_ts start \<and> frequency \<in> set recognized_frequencies"
  then have v: "valid_ts start" and f: "frequency \<in> set recognized_frequencies" by simp_all
  from invest_loop_terminates [OF v f]
  show l: "\<exists>investments. invest_loop rate data end_dt amount frequency start [] = Some (Inr investments)" .
  then show "\<exists>result. simulate_investment rate data start end_dt amount frequency = Some result"
    by (auto simp: simulate_investment_def Let_def split: sum.splits)
  fix current
  assume "valid_ts current"
  from advance_cursor_later [OF this f]
  show "\<exists>next. advance_cursor frequency current = Inr next \<and> valid_ts next
             \<and> to_ns current < to_ns next" .
qed

theorem contribution_loop_terminates_witness:
  "valid_ts \<lparr>year = 2024, month = 1, day = 31, tod = 0\<rparr>
   \<and> ''monthly'' \<in> set recognized_frequencies
   \<and> (\<exists>investments.
         invest_loop (1 / 1000) [example_point] \<lparr>year = 2024, month = 3, day = 1, tod = 0\<rparr> 50
           ''monthly'' \<lparr>year = 2024, month = 1, day = 31, tod = 0\<rparr> [] = Some (Inr investments))
   \<and> (\<exists>next. advance_cursor ''monthly'' \<lparr>year = 2024, month = 1, day = 31, tod = 0\<rparr> = Inr next
         \<and> to_ns \<lparr>year = 2024, month = 1, day = 31, tod = 0\<rparr> < to_ns next)"
proof -
  have v: "valid_ts \<lparr>year = 2024, month = 1, day = 31, tod = 0\<rparr>"
    by (simp add: valid_ts_def valid_date_def days_in_month_def day_ns_def hour_ns_def minute_ns_def)
  have f: "''monthly'' \<in> set recognized_frequencies"
    by (simp add: recognized_frequencies_def)
  from contribution_loop_terminates [of "\<lparr>year = 2024, month = 1, day = 31, tod = 0\<rparr>"
      "''monthly''" "1 / 1000" "[example_point]" "\<lparr>year = 2024, month = 3, day = 1, tod = 0\<rparr>" 50]
    v f
  show ?thesis by blast
qed

section \<open>Daily contributions at a constant price\<close>










end
